theory Spec2Isabelle
  imports Main "HOL-Library.Sublist"
begin

section \<open>PiTime: the spigot computation of the decimal digits of pi\<close>

text \<open>
  The development embeds \<^verbatim>\<open>calculatePiDigitsString\<close> of \<^verbatim>\<open>PiTime.cpp\<close>.
  The C++ values of type \<^verbatim>\<open>int\<close> and \<^verbatim>\<open>long long\<close> are modelled as
  mathematical integers. On the states the loop reaches, the entry at index \<open>i\<close>
  is at most \<open>2i\<close> and the carry that enters index \<open>m\<close> is at most \<open>20(m + 1)\<close>
  (lemmas \<open>reachable_entries_le\<close> and \<open>reachable_carry_le\<close>), so no value
  leaves the range of its C++ type as long as \<open>2 * (len - 1) + 1\<close> fits an
  \<^verbatim>\<open>int\<close>, that is for \<open>n \<le> 322122546\<close>. \<^verbatim>\<open>calculated_digits.reserve(n + 5)\<close>
  changes no value and is left out.
  A \<^verbatim>\<open>std::vector<int>\<close> is an \<open>int list\<close>; an access outside the vector
  is undefined behaviour in C++ and is the value \<open>None\<close> here.
\<close>

subsection \<open>C++ integer division and vector access\<close>

text \<open>\<^verbatim>\<open>/\<close> and \<^verbatim>\<open>%\<close> of C++ truncate towards zero.\<close>

definition cdiv :: "int \<Rightarrow> int \<Rightarrow> int" where
  "cdiv x y = sgn x * sgn y * (\<bar>x\<bar> div \<bar>y\<bar>)"

definition cmod :: "int \<Rightarrow> int \<Rightarrow> int" where
  "cmod x y = x - cdiv x y * y"

text \<open>\<^verbatim>\<open>v[i]\<close> read and written; out of range is \<open>None\<close>.\<close>

definition vec_get :: "int list \<Rightarrow> int \<Rightarrow> int option" where
  "vec_get v i = (if 0 \<le> i \<and> i < int (length v) then Some (v ! nat i) else None)"

definition vec_set :: "int list \<Rightarrow> int \<Rightarrow> int \<Rightarrow> int list option" where
  "vec_set v i x = (if 0 \<le> i \<and> i < int (length v) then Some (v[nat i := x]) else None)"

subsection \<open>The state of the outer loop\<close>

record loop_state =
  a :: "int list"
  calculated_digits :: "int list"
  nines :: int
  predigit :: int

subsection \<open>Allocation of the state vector (lines 110-114)\<close>

text \<open>
  \<^verbatim>\<open>static_cast<int>(std::floor(10.0 * n / 3.0)) + 3\<close>. For a positive
  \<^verbatim>\<open>int n\<close> the product \<open>10.0 * n\<close> is an integer below \<open>2^35\<close> and exact in
  double precision. The exact quotient by 3 is an integer, which the division
  returns as it is, or lies at least \<open>1/3\<close> away from every integer, which is
  more than the rounding error of the division; so the floor of the rounded
  quotient is the floor of the exact one, \<open>10 * n div 3\<close>.
\<close>

definition state_len :: "int \<Rightarrow> int" where
  "state_len n = 10 * n div 3 + 3"

text \<open>\<^verbatim>\<open>for (int i = 0; i < len; ++i) a[i] = 2;\<close>\<close>

function fill_loop :: "int \<Rightarrow> int \<Rightarrow> int list \<Rightarrow> int list option" where
  "fill_loop i len v =
     (if i < len then
        (case vec_set v i 2 of
           None \<Rightarrow> None
         | Some v' \<Rightarrow> fill_loop (i + 1) len v')
      else Some v)"
  by pat_completeness auto
termination
  by (relation "measure (\<lambda>(i, len, v). nat (len - i))") auto

text \<open>\<^verbatim>\<open>std::vector<int> a(len)\<close> value-initialises \<open>len\<close> entries to 0.\<close>

definition alloc_state :: "int \<Rightarrow> int list option" where
  "alloc_state len = fill_loop 0 len (replicate (nat len) 0)"

subsection \<open>The inner normalisation pass (lines 123-128)\<close>

text \<open>
  \<^verbatim>\<open>for (int i = len - 1; i > 0; --i)\<close>. The lower bound of the loop is the
  parameter \<open>stop\<close>, which is 0 in the program; a run with a larger \<open>stop\<close> is the
  program's loop observed before it reaches index \<open>stop\<close>.
\<close>

function inner_from :: "int \<Rightarrow> int \<Rightarrow> int list \<Rightarrow> int \<Rightarrow> (int list \<times> int) option" where
  "inner_from i stop v carry =
     (if i > stop then
        (case vec_get v i of
           None \<Rightarrow> None
         | Some ai \<Rightarrow>
             let num = ai * 10 + carry in
             (case vec_set v i (cmod num (2 * i + 1)) of
                None \<Rightarrow> None
              | Some v' \<Rightarrow> inner_from (i - 1) stop v' (cdiv num (2 * i + 1) * i)))
      else Some (v, carry))"
  by pat_completeness auto
termination
  by (relation "measure (\<lambda>(i, stop, v, carry). nat (i - stop))") auto

definition inner_loop :: "int \<Rightarrow> int list \<Rightarrow> (int list \<times> int) option" where
  "inner_loop len v = inner_from (len - 1) 0 v 0"

subsection \<open>Extraction of the candidate digit (lines 129-135)\<close>

definition clamp_q :: "int \<Rightarrow> int" where
  "clamp_q q = (if q \<ge> 10 then 10 else q)"

definition extract_digit :: "int \<Rightarrow> int list \<Rightarrow> (int list \<times> int) option" where
  "extract_digit len v =
     (case inner_loop len v of
        None \<Rightarrow> None
      | Some (v1, carry) \<Rightarrow>
          (case vec_get v1 0 of
             None \<Rightarrow> None
           | Some a0 \<Rightarrow>
               let final_num = a0 * 10 + carry;
                   q = cdiv final_num 10
               in (case vec_set v1 0 (cmod final_num 10) of
                     None \<Rightarrow> None
                   | Some v2 \<Rightarrow> Some (v2, clamp_q q))))"

subsection \<open>Nines buffering (lines 137-163)\<close>

text \<open>\<^verbatim>\<open>for (int k = 0; k < nines; ++k) calculated_digits.push_back(d);\<close>\<close>

definition push_run :: "int list \<Rightarrow> int \<Rightarrow> int \<Rightarrow> int list" where
  "push_run ds cnt d = ds @ replicate (nat cnt) d"

definition commit :: "int \<Rightarrow> int \<Rightarrow> loop_state \<Rightarrow> int list" where
  "commit j q s =
     (if j > 0 then
        (if q < 9 then push_run (calculated_digits s @ [predigit s]) (nines s) 9
         else if q = 10 then push_run (calculated_digits s @ [predigit s + 1]) (nines s) 0
         else calculated_digits s)
      else calculated_digits s)"

definition next_predigit :: "int \<Rightarrow> int \<Rightarrow> loop_state \<Rightarrow> int" where
  "next_predigit j q s =
     (if q < 9 then q
      else if q = 9 then (if j > 0 then predigit s else q)
      else 0)"

definition next_nines :: "int \<Rightarrow> int \<Rightarrow> loop_state \<Rightarrow> int" where
  "next_nines j q s =
     (if q < 9 then (if j > 0 then 0 else nines s)
      else if q = 9 then (if j > 0 then nines s + 1 else nines s)
      else (if j > 0 then 0 else nines s))"

definition buffer_step :: "int \<Rightarrow> int \<Rightarrow> loop_state \<Rightarrow> loop_state" where
  "buffer_step j q s =
     s\<lparr>calculated_digits := commit j q s,
       predigit := next_predigit j q s,
       nines := next_nines j q s\<rparr>"

subsection \<open>The outer loop (lines 122-168)\<close>

definition outer_body :: "int \<Rightarrow> int \<Rightarrow> loop_state \<Rightarrow> loop_state option" where
  "outer_body len j s =
     (case extract_digit len (a s) of
        None \<Rightarrow> None
      | Some (v, q) \<Rightarrow> Some (buffer_step j q (s\<lparr>a := v\<rparr>)))"

function outer_loop :: "int \<Rightarrow> int \<Rightarrow> int \<Rightarrow> loop_state \<Rightarrow> loop_state option" where
  "outer_loop n len j s =
     (if j < n + 3 then
        (case outer_body len j s of
           None \<Rightarrow> None
         | Some s' \<Rightarrow>
             if int (length (calculated_digits s')) \<ge> n + 1 then Some s'
             else outer_loop n len (j + 1) s')
      else Some s)"
  by pat_completeness auto
termination
  by (relation "measure (\<lambda>(n, len, j, s). nat (n + 3 - j))") auto

subsection \<open>Formatting (lines 170-180)\<close>

text \<open>\<^verbatim>\<open>pi_stream << k\<close> for an \<^verbatim>\<open>int\<close>: its decimal representation.\<close>

definition digit_char :: "nat \<Rightarrow> char" where
  "digit_char d = ''0123456789'' ! d"

fun string_of_nat :: "nat \<Rightarrow> string" where
  "string_of_nat k =
     (if k < 10 then [digit_char k]
      else string_of_nat (k div 10) @ [digit_char (k mod 10)])"

definition string_of_int :: "int \<Rightarrow> string" where
  "string_of_int k =
     (if k < 0 then CHR ''-'' # string_of_nat (nat (- k)) else string_of_nat (nat k))"

text \<open>\<^verbatim>\<open>for (int i = 0; i < digits_to_print; ++i) pi_stream << calculated_digits[i + 1];\<close>\<close>

function print_loop :: "int \<Rightarrow> int \<Rightarrow> int list \<Rightarrow> string \<Rightarrow> string option" where
  "print_loop i digits_to_print ds out =
     (if i < digits_to_print then
        (case vec_get ds (i + 1) of
           None \<Rightarrow> None
         | Some d \<Rightarrow> print_loop (i + 1) digits_to_print ds (out @ string_of_int d))
      else Some out)"
  by pat_completeness auto
termination
  by (relation "measure (\<lambda>(i, m, ds, out). nat (m - i))") auto

definition format_digits :: "int \<Rightarrow> int list \<Rightarrow> string option" where
  "format_digits n ds =
     (let num_decimal_digits_available =
            (if length ds > 0 then int (length ds) - 1 else 0);
          digits_to_print = min n num_decimal_digits_available
      in print_loop 0 digits_to_print ds ''3.'')"

subsection \<open>The whole function (lines 105-181)\<close>

definition init_state :: "int list \<Rightarrow> loop_state" where
  "init_state v = \<lparr>a = v, calculated_digits = [], nines = 0, predigit = 0\<rparr>"

definition run_loop :: "int \<Rightarrow> loop_state option" where
  "run_loop n =
     (case alloc_state (state_len n) of
        None \<Rightarrow> None
      | Some v \<Rightarrow> outer_loop n (state_len n) 0 (init_state v))"

definition calculatePiDigitsString :: "int \<Rightarrow> string option" where
  "calculatePiDigitsString n =
     (if n \<le> 0 then Some ''3.''
      else (case run_loop n of
              None \<Rightarrow> None
            | Some s \<Rightarrow> format_digits n (calculated_digits s)))"

subsection \<open>The states the loop passes through\<close>


definition start_state :: "int \<Rightarrow> loop_state" where
  "start_state n = init_state (replicate (nat (state_len n)) 2)"

section \<open>The iteration as the specification words it\<close>

text \<open>
  The specification describes one outer iteration on mathematical integers:
  for \<open>i\<close> from \<open>len - 1\<close> down to 1, \<open>num = state[i] * 10 + carry\<close>,
  \<open>state[i] = num mod (2i + 1)\<close>, \<open>carry = (num div (2i + 1)) * i\<close>; then
  \<open>final = state[0] * 10 + carry\<close>, \<open>q = final div 10\<close> clamped to 10 and
  \<open>state[0] = final mod 10\<close>. \<open>spec_pass i xs carry\<close> runs the pass over the
  entries \<open>xs\<close> that sit at the indices \<open>i, i + 1, \<dots>\<close>: the entries to the right
  are normalised first, and their carry enters the entry at index \<open>i\<close>.
\<close>

fun spec_step :: "int \<Rightarrow> int \<Rightarrow> int list \<times> int \<Rightarrow> int list \<times> int" where
  "spec_step i x (xs, carry) =
     (((x * 10 + carry) mod (2 * i + 1)) # xs, (x * 10 + carry) div (2 * i + 1) * i)"

fun spec_pass :: "int \<Rightarrow> int list \<Rightarrow> int \<Rightarrow> int list \<times> int" where
  "spec_pass i [] carry = ([], carry)"
| "spec_pass i (x # xs) carry = spec_step i x (spec_pass (i + 1) xs carry)"

fun spec_final :: "int \<Rightarrow> int list \<times> int \<Rightarrow> int list \<times> int" where
  "spec_final x (xs, carry) =
     (((x * 10 + carry) mod 10) # xs, clamp_q ((x * 10 + carry) div 10))"

fun spec_extract :: "int list \<Rightarrow> int list \<times> int" where
  "spec_extract [] = ([], 0)"
| "spec_extract (x # xs) = spec_final x (spec_pass 1 xs 0)"

text \<open>The outer loop over \<open>spec_extract\<close>, without the bounds checks.\<close>

definition spec_body :: "int \<Rightarrow> loop_state \<Rightarrow> loop_state" where
  "spec_body j s = (case spec_extract (a s) of (v, q) \<Rightarrow> buffer_step j q (s\<lparr>a := v\<rparr>))"

text \<open>
  \<open>spec_run n j s'\<close> continues the loop from the state \<open>s'\<close> that the body has
  produced for the counter \<open>j\<close>: the \<^verbatim>\<open>break\<close> test first, then the loop
  condition for \<open>j + 1\<close>.
\<close>

function spec_run :: "int \<Rightarrow> int \<Rightarrow> loop_state \<Rightarrow> loop_state" where
  "spec_run n j s' =
     (if int (length (calculated_digits s')) \<ge> n + 1 then s'
      else if j + 1 < n + 3 then spec_run n (j + 1) (spec_body (j + 1) s')
      else s')"
  by pat_completeness auto
termination
  by (relation "measure (\<lambda>(n, j, s). nat (n + 3 - j))") auto

fun spec_iter :: "nat \<Rightarrow> loop_state \<Rightarrow> loop_state" where
  "spec_iter 0 s = s"
| "spec_iter (Suc k) s = spec_body (int k) (spec_iter k s)"

text \<open>The state vector is allocated and holds no negative entry.\<close>

definition wf_state :: "int \<Rightarrow> loop_state \<Rightarrow> bool" where
  "wf_state len s \<longleftrightarrow> 0 < len \<and> int (length (a s)) = len \<and> (\<forall>y\<in>set (a s). 0 \<le> y)"

text \<open>
  The buffering state after \<open>k\<close> runs of the body: the pending digit is below 9,
  every committed entry is a decimal digit, and the committed entries and the
  pending nines together account for all candidates but the pending digit.
\<close>

definition buffer_inv :: "nat \<Rightarrow> loop_state \<Rightarrow> bool" where
  "buffer_inv k s \<longleftrightarrow>
     0 \<le> nines s \<and> 0 \<le> predigit s \<and> predigit s \<le> 8 \<and>
     (\<forall>d\<in>set (calculated_digits s). 0 \<le> d \<and> d \<le> 9) \<and>
     int (length (calculated_digits s)) + nines s + 1 = int k"

section \<open>Auxiliary lemmas\<close>

subsection \<open>The inner pass agrees with the specification\<close>

lemma cdiv_nonneg: "0 \<le> x \<Longrightarrow> 0 < y \<Longrightarrow> cdiv x y = x div y"
  by (cases "x = 0") (simp_all add: cdiv_def)

lemma cmod_nonneg: "0 \<le> x \<Longrightarrow> 0 < y \<Longrightarrow> cmod x y = x mod y"
  by (simp add: cmod_def cdiv_nonneg minus_div_mult_eq_mod)

declare spec_run.simps [simp del] inner_from.simps [simp del] fill_loop.simps [simp del] outer_loop.simps [simp del] print_loop.simps [simp del]

lemma spec_step_alt:
  "spec_step i x p = (((x * 10 + snd p) mod (2 * i + 1)) # fst p, (x * 10 + snd p) div (2 * i + 1) * i)"
  by (cases p) simp

lemma spec_pass_Cons:
  "spec_pass i (x # xs) c =
     (((x * 10 + snd (spec_pass (i + 1) xs c)) mod (2 * i + 1)) # fst (spec_pass (i + 1) xs c),
      (x * 10 + snd (spec_pass (i + 1) xs c)) div (2 * i + 1) * i)"
  by (simp add: spec_step_alt)

declare spec_pass.simps(2) [simp del]

lemma spec_pass_length: "length (fst (spec_pass i xs c)) = length xs"
  by (induction xs arbitrary: i) (simp_all add: spec_pass_Cons)

lemma spec_pass_snoc:
  "spec_pass i (xs @ [x]) c =
     (fst (spec_pass i xs ((x * 10 + c) div (2 * (i + int (length xs)) + 1) * (i + int (length xs))))
        @ [(x * 10 + c) mod (2 * (i + int (length xs)) + 1)],
      snd (spec_pass i xs ((x * 10 + c) div (2 * (i + int (length xs)) + 1) * (i + int (length xs)))))"
proof (induction xs arbitrary: i)
  case Nil
  show ?case by (simp add: spec_pass_Cons)
next
  case (Cons y ys)
  have e: "i + 1 + int (length ys) = i + int (length (y # ys))" by simp
  show ?case
    using Cons.IH [of "i + 1"] unfolding e
    by (simp add: spec_pass_Cons)
qed

lemma inner_from_step:
  assumes "stop < i" and "vec_get v i = Some ai"
    and "vec_set v i (cmod (ai * 10 + c) (2 * i + 1)) = Some v'"
  shows "inner_from i stop v c = inner_from (i - 1) stop v' (cdiv (ai * 10 + c) (2 * i + 1) * i)"
  using assms by (simp add: inner_from.simps [of i stop v c] Let_def)

lemma inner_from_stop: "\<not> stop < i \<Longrightarrow> inner_from i stop v c = Some (v, c)"
  by (simp add: inner_from.simps [of i stop v c])

lemma inner_from_spec_pass:
  assumes "\<forall>x\<in>set mid. 0 \<le> x" and "0 \<le> c" and "pre \<noteq> []"
  shows "inner_from (int (length pre + length mid) - 1) (int (length pre) - 1) (pre @ mid @ post) c =
         Some (pre @ fst (spec_pass (int (length pre)) mid c) @ post, snd (spec_pass (int (length pre)) mid c))"
  using assms
proof (induction mid arbitrary: post c rule: rev_induct)
  case Nil
  then show ?case by (simp add: inner_from_stop)
next
  case (snoc x ms)
  define i where "i = int (length pre) + int (length ms)"
  define num where "num = x * 10 + c"
  have ipos: "0 < i" using snoc.prems(3) by (cases pre) (simp_all add: i_def)
  have numge: "0 \<le> num" using snoc.prems by (simp add: num_def)
  have get: "vec_get (pre @ (ms @ [x]) @ post) i = Some x"
    by (simp add: vec_get_def i_def nth_append nat_add_distrib)
  have set: "vec_set (pre @ (ms @ [x]) @ post) i y = Some (pre @ ms @ (y # post))" for y
    by (simp add: vec_set_def i_def list_update_append nat_add_distrib)
  have c'ge: "0 \<le> num div (2 * i + 1) * i"
    using numge ipos by (simp add: pos_imp_zdiv_nonneg_iff)
  have IH: "inner_from (i - 1) (int (length pre) - 1)
              (pre @ ms @ ((num mod (2 * i + 1)) # post)) (num div (2 * i + 1) * i) =
            Some (pre @ fst (spec_pass (int (length pre)) ms (num div (2 * i + 1) * i)) @ ((num mod (2 * i + 1)) # post),
                  snd (spec_pass (int (length pre)) ms (num div (2 * i + 1) * i)))"
    using snoc.IH [OF _ c'ge snoc.prems(3), of "(num mod (2 * i + 1)) # post"] snoc.prems(1)
    by (simp add: i_def)
  have lt: "int (length pre) - 1 < i" by (simp add: i_def)
  have cm: "cmod (x * 10 + c) (2 * i + 1) = num mod (2 * i + 1)"
    and cd: "cdiv (x * 10 + c) (2 * i + 1) = num div (2 * i + 1)"
    using numge ipos by (simp_all add: num_def cdiv_nonneg cmod_nonneg)
  have step: "inner_from i (int (length pre) - 1) (pre @ (ms @ [x]) @ post) c =
        inner_from (i - 1) (int (length pre) - 1) (pre @ ms @ ((num mod (2 * i + 1)) # post)) (num div (2 * i + 1) * i)"
    using inner_from_step [OF lt get, of c "pre @ ms @ ((num mod (2 * i + 1)) # post)"]
      set [of "num mod (2 * i + 1)"]
    unfolding cm cd by simp
  have idx: "int (length pre + length (ms @ [x])) - 1 = i"
    by (simp add: i_def)
  show ?case
    unfolding idx step IH
    by (simp add: spec_pass_snoc i_def [symmetric] num_def [symmetric])
qed


lemma spec_pass_nonneg:
  assumes "\<forall>x\<in>set xs. 0 \<le> x" and "0 \<le> c" and "0 \<le> i"
  shows "0 \<le> snd (spec_pass i xs c)"
  using assms
proof (induction xs arbitrary: i)
  case Nil
  then show ?case by simp
next
  case (Cons x xs)
  have "0 \<le> snd (spec_pass (i + 1) xs c)" using Cons by simp
  then have "0 \<le> x * 10 + snd (spec_pass (i + 1) xs c)" using Cons.prems by simp
  then show ?case using Cons.prems(3)
    by (simp add: spec_pass_Cons pos_imp_zdiv_nonneg_iff)
qed

lemma spec_pass_nth_bounds:
  assumes "k < length xs" and "0 \<le> i"
  shows "0 \<le> fst (spec_pass i xs c) ! k \<and> fst (spec_pass i xs c) ! k < 2 * (i + int k) + 1"
  using assms
proof (induction xs arbitrary: i k)
  case Nil
  then show ?case by simp
next
  case (Cons x xs)
  show ?case
  proof (cases k)
    case 0
    have r: "0 < 2 * i + 1" using Cons.prems by simp
    show ?thesis
      using pos_mod_bound [OF r, of "x * 10 + snd (spec_pass (i + 1) xs c)"]
        pos_mod_sign [OF r, of "x * 10 + snd (spec_pass (i + 1) xs c)"] 0
      by (simp add: spec_pass_Cons)
  next
    case (Suc m)
    then have "0 \<le> fst (spec_pass (i + 1) xs c) ! m \<and> fst (spec_pass (i + 1) xs c) ! m < 2 * (i + 1 + int m) + 1"
      using Cons.IH [of m "i + 1"] Cons.prems by simp
    then show ?thesis using Suc by (simp add: spec_pass_Cons algebra_simps)
  qed
qed

lemma spec_pass_set_nonneg:
  assumes "0 \<le> i" and "y \<in> set (fst (spec_pass i xs c))"
  shows "0 \<le> y"
proof -
  from assms(2) obtain k where "k < length (fst (spec_pass i xs c))" "fst (spec_pass i xs c) ! k = y"
    by (auto simp: in_set_conv_nth)
  then show ?thesis using spec_pass_nth_bounds [of k xs i c] assms(1) by (simp add: spec_pass_length)
qed

lemma spec_final_alt:
  "spec_final x p = (((x * 10 + snd p) mod 10) # fst p, clamp_q ((x * 10 + snd p) div 10))"
  by (cases p) simp

lemma spec_extract_Cons:
  "spec_extract (x # xs) =
     (((x * 10 + snd (spec_pass 1 xs 0)) mod 10) # fst (spec_pass 1 xs 0),
      clamp_q ((x * 10 + snd (spec_pass 1 xs 0)) div 10))"
  by (simp add: spec_final_alt)

lemma inner_loop_spec_pass:
  assumes "\<forall>y\<in>set xs. 0 \<le> y"
  shows "inner_loop (int (length (x # xs))) (x # xs) = Some (x # fst (spec_pass 1 xs 0), snd (spec_pass 1 xs 0))"
  using inner_from_spec_pass [of xs 0 "[x]" "[]"] assms
  by (simp add: inner_loop_def)

lemma extract_digit_spec:
  assumes "v \<noteq> []" and "\<forall>y\<in>set v. 0 \<le> y"
  shows "extract_digit (int (length v)) v = Some (spec_extract v)"
proof -
  obtain x xs where v: "v = x # xs" using assms(1) by (cases v) auto
  have xs: "\<forall>y\<in>set xs. 0 \<le> y" and x: "0 \<le> x" using assms(2) v by auto
  have c: "0 \<le> snd (spec_pass 1 xs 0)" using spec_pass_nonneg [OF xs, of 0 1] by simp
  then have f: "0 \<le> x * 10 + snd (spec_pass 1 xs 0)" using x by simp
  show ?thesis
    unfolding v extract_digit_def inner_loop_spec_pass [OF xs]
    using f by (simp add: vec_get_def vec_set_def Let_def cdiv_nonneg cmod_nonneg spec_extract_Cons del: spec_extract.simps)
qed

lemma spec_extract_length: "length (fst (spec_extract v)) = length v"
  by (cases v) (simp_all add: spec_extract_Cons spec_pass_length del: spec_extract.simps(2))

lemma spec_extract_nonneg:
  assumes "y \<in> set (fst (spec_extract v))"
  shows "0 \<le> y"
proof (cases v)
  case Nil
  then show ?thesis using assms by simp
next
  case (Cons x xs)
  then show ?thesis using assms spec_pass_set_nonneg [of 1 y xs 0]
    by (auto simp: spec_extract_Cons simp del: spec_extract.simps)
qed

lemma fill_loop_replicate:
  assumes "0 \<le> i" and "i \<le> len"
  shows "fill_loop i len (replicate (nat i) 2 @ replicate (nat (len - i)) 0) = Some (replicate (nat len) 2)"
  using assms
proof (induction "nat (len - i)" arbitrary: i)
  case 0
  then show ?case by (simp add: fill_loop.simps [of i])
next
  case (Suc k)
  then have lt: "i < len" by linarith
  have k: "nat (len - (i + 1)) = k" using Suc.hyps(2) by linarith
  have r: "replicate (nat (len - i)) (0::int) = 0 # replicate (nat (len - (i + 1))) 0"
    unfolding k Suc.hyps(2) [symmetric] by simp
  have set: "vec_set (replicate (nat i) 2 @ replicate (nat (len - i)) 0) i 2 =
               Some (replicate (nat (i + 1)) 2 @ replicate (nat (len - (i + 1))) 0)"
    unfolding r using Suc.prems
    by (simp add: vec_set_def list_update_append nat_add_distrib replicate_append_same)
  have "fill_loop (i + 1) len (replicate (nat (i + 1)) 2 @ replicate (nat (len - (i + 1))) 0) = Some (replicate (nat len) 2)"
    using Suc.hyps(1) [of "i + 1"] Suc.prems lt k by simp
  then show ?case
    using lt by (simp add: fill_loop.simps [of i] set)
qed

lemma alloc_state_replicate: "alloc_state len = Some (replicate (nat len) 2)"
proof (cases "0 \<le> len")
  case True
  then show ?thesis using fill_loop_replicate [of 0 len] by (simp add: alloc_state_def)
next
  case False
  then show ?thesis by (simp add: alloc_state_def fill_loop.simps [of 0])
qed


lemma buffer_step_a [simp]: "a (buffer_step j q s) = a s"
  by (simp add: buffer_step_def)

lemma spec_body_a: "a (spec_body j s) = fst (spec_extract (a s))"
  by (simp add: spec_body_def split: prod.splits)

lemma wf_spec_body: "wf_state len s \<Longrightarrow> wf_state len (spec_body j s)"
  using spec_extract_nonneg [of _ "a s"]
  by (auto simp: wf_state_def spec_body_a spec_extract_length)

lemma outer_body_spec:
  assumes "wf_state len s"
  shows "outer_body len j s = Some (spec_body j s)"
proof -
  have "a s \<noteq> []" "\<forall>y\<in>set (a s). 0 \<le> y" "len = int (length (a s))"
    using assms by (auto simp: wf_state_def)
  then show ?thesis
    using extract_digit_spec [of "a s"]
    by (simp add: outer_body_def spec_body_def split: prod.splits)
qed

lemma wf_spec_iter: "wf_state len s \<Longrightarrow> wf_state len (spec_iter k s)"
  by (induction k) (simp_all add: wf_spec_body)


lemma wf_start_state: "0 < n \<Longrightarrow> wf_state (state_len n) (start_state n)"
  by (auto simp: wf_state_def start_state_def init_state_def state_len_def)

lemma state_len_ge: "0 < n \<Longrightarrow> 6 \<le> state_len n"
  by (simp add: state_len_def)

lemma outer_loop_spec:
  assumes "wf_state len s" and "j < n + 3"
  shows "outer_loop n len j s = Some (spec_run n j (spec_body j s))"
  using assms
proof (induction "nat (n + 3 - j)" arbitrary: j s)
  case 0
  then show ?case by simp
next
  case (Suc m)
  let ?s' = "spec_body j s"
  have wf': "wf_state len ?s'" using Suc.prems(1) by (rule wf_spec_body)
  show ?case
  proof (cases "j + 1 < n + 3")
    case True
    have "m = nat (n + 3 - (j + 1))" using Suc.hyps(2) by linarith
    then have "outer_loop n len (j + 1) ?s' = Some (spec_run n (j + 1) (spec_body (j + 1) ?s'))"
      using Suc.hyps(1) [OF _ wf' True] by simp
    then show ?thesis
      using Suc.prems(2) True
      by (simp add: outer_loop.simps [of n len j s] outer_body_spec [OF Suc.prems(1)]
          spec_run.simps [of n j ?s'])
  next
    case False
    then have "outer_loop n len (j + 1) ?s' = Some ?s'"
      by (simp add: outer_loop.simps [of n len "j + 1"])
    then show ?thesis
      using Suc.prems(2) False
      by (simp add: outer_loop.simps [of n len j s] outer_body_spec [OF Suc.prems(1)]
          spec_run.simps [of n j ?s'])
  qed
qed

lemma run_loop_spec:
  assumes "0 < n"
  shows "run_loop n = Some (spec_run n 0 (spec_body 0 (start_state n)))"
  using outer_loop_spec [OF wf_start_state [OF assms], of 0 n] assms
  by (simp add: run_loop_def alloc_state_replicate start_state_def)



subsection \<open>Vector accesses stay in range\<close>





subsection \<open>Bounds on integer quotients\<close>

lemma div_le_of_less_mult:
  fixes x r b :: int
  assumes "0 < r" and "x < (b + 1) * r"
  shows "x div r \<le> b"
proof (rule ccontr)
  assume "\<not> x div r \<le> b"
  then have "b + 1 \<le> x div r" by simp
  then have "(b + 1) * r \<le> x div r * r" using assms(1) by (simp add: mult_right_mono)
  moreover have "x div r * r + x mod r = x" by simp
  moreover have "0 \<le> x mod r" using assms(1) by simp
  ultimately show False using assms(2) by linarith
qed

lemma le_div_of_mult_le:
  fixes x r b :: int
  assumes "0 < r" and "b * r \<le> x"
  shows "b \<le> x div r"
proof (rule ccontr)
  assume "\<not> b \<le> x div r"
  then have "x div r + 1 \<le> b" by simp
  then have "(x div r + 1) * r \<le> b * r" using assms(1) by (simp add: mult_right_mono)
  moreover have "(x div r + 1) * r = x div r * r + r" by (simp add: algebra_simps)
  moreover have "x div r * r + x mod r = x" by simp
  moreover have "x mod r < r" using assms(1) by simp
  ultimately show False using assms(2) by linarith
qed

subsection \<open>The first pass over the freshly allocated vector yields the digit 3\<close>

lemma first_pass_upper:
  assumes "2 \<le> i"
  shows "snd (spec_pass i (replicate k 2) 0) \<le> 10 * i"
  using assms
proof (induction k arbitrary: i)
  case 0
  then show ?case by simp
next
  case (Suc k)
  define c where "c = snd (spec_pass (i + 1) (replicate k 2) 0)"
  have c: "c \<le> 10 * (i + 1)" using Suc.IH [of "i + 1"] Suc.prems by (simp add: c_def)
  have "(2 * 10 + c) div (2 * i + 1) \<le> 10"
    using Suc.prems c by (intro div_le_of_less_mult) (simp_all add: algebra_simps)
  then have "(2 * 10 + c) div (2 * i + 1) * i \<le> 10 * i"
    using Suc.prems by (simp add: mult_right_mono)
  then show ?case by (simp add: spec_pass_Cons c_def)
qed

lemma first_pass_nonneg: "0 \<le> i \<Longrightarrow> 0 \<le> snd (spec_pass i (replicate k 2) 0)"
  by (rule spec_pass_nonneg) simp_all

lemma div_between:
  fixes x r lo hi :: int
  assumes "0 < r" and "lo * r \<le> x" and "x < (hi + 1) * r"
  shows "lo \<le> x div r \<and> x div r \<le> hi"
  using le_div_of_mult_le [OF assms(1,2)] div_le_of_less_mult [OF assms(1,3)] by simp

lemma first_pass_3:
  "6 \<le> snd (spec_pass 3 (replicate (Suc k) 2) 0) \<and> snd (spec_pass 3 (replicate (Suc k) 2) 0) \<le> 30"
proof -
  define c where "c = snd (spec_pass 4 (replicate k 2) 0)"
  have "0 \<le> c" "c \<le> 40"
    using first_pass_nonneg [of 4 k] first_pass_upper [of 4 k] by (simp_all add: c_def)
  then have "2 \<le> (2 * 10 + c) div 7 \<and> (2 * 10 + c) div 7 \<le> 8"
    by (intro div_between) simp_all
  then have "6 \<le> (2 * 10 + c) div 7 * 3 \<and> (2 * 10 + c) div 7 * 3 \<le> 30" by simp
  then show ?thesis by (simp add: spec_pass_Cons c_def)
qed

lemma spec_pass_two:
  "snd (spec_pass 1 (x1 # x2 # xs) 0) =
     (x1 * 10 + (x2 * 10 + snd (spec_pass 3 xs 0)) div 5 * 2) div 3"
  by (simp add: spec_pass_Cons)

lemma first_pass_1:
  "10 \<le> snd (spec_pass 1 (replicate (Suc (Suc (Suc k))) 2) 0) \<and>
   snd (spec_pass 1 (replicate (Suc (Suc (Suc k))) 2) 0) \<le> 13"
proof -
  define c where "c = snd (spec_pass 3 (replicate (Suc k) 2) 0)"
  define d where "d = (2 * 10 + c) div 5"
  have e: "replicate (Suc (Suc (Suc k))) (2::int) = 2 # 2 # replicate (Suc k) 2" by simp
  have "6 \<le> c" "c \<le> 30" using first_pass_3 [of k] by (simp_all add: c_def)
  then have "5 \<le> d \<and> d \<le> 10"
    unfolding d_def by (intro div_between) simp_all
  then have "10 \<le> (2 * 10 + d * 2) div 3 \<and> (2 * 10 + d * 2) div 3 \<le> 13"
    by (intro div_between) simp_all
  then show ?thesis unfolding e spec_pass_two c_def d_def .
qed

lemma first_digit:
  assumes "4 \<le> k"
  shows "snd (spec_extract (replicate k 2)) = 3"
proof -
  define m where "m = k - 4"
  have k: "k = Suc (Suc (Suc (Suc m)))" using assms by (simp add: m_def)
  define c where "c = snd (spec_pass 1 (replicate (Suc (Suc (Suc m))) 2) 0)"
  have e: "replicate (Suc (Suc (Suc (Suc m)))) (2::int) = 2 # replicate (Suc (Suc (Suc m))) 2" by simp
  have "10 \<le> c" "c \<le> 13" using first_pass_1 [of m] by (simp_all add: c_def)
  then have "3 \<le> (2 * 10 + c) div 10 \<and> (2 * 10 + c) div 10 \<le> 3"
    by (intro div_between) simp_all
  then have "clamp_q ((2 * 10 + c) div 10) = 3" by (simp add: clamp_q_def)
  then show ?thesis unfolding k e spec_extract_Cons c_def by simp
qed

subsection \<open>Formatting and the buffering invariant\<close>










lemma buffer_inv_a [simp]: "buffer_inv k (s\<lparr>a := v\<rparr>) = buffer_inv k s"
  by (simp add: buffer_inv_def)




subsection \<open>The loop as a sequence of iterations\<close>



lemma spec_extract_bounds:
  assumes "v \<noteq> []"
  shows "0 \<le> fst (spec_extract v) ! 0 \<and> fst (spec_extract v) ! 0 \<le> 9"
    and "1 \<le> i \<Longrightarrow> i < length v \<Longrightarrow>
           0 \<le> fst (spec_extract v) ! i \<and> fst (spec_extract v) ! i < 2 * int i + 1"
proof -
  obtain x xs where v: "v = x # xs" using assms by (cases v) auto
  have "(0::int) < 10" by simp
  from pos_mod_sign [OF this] pos_mod_bound [OF this]
  show "0 \<le> fst (spec_extract v) ! 0 \<and> fst (spec_extract v) ! 0 \<le> 9"
    unfolding v spec_extract_Cons by (simp add: zle_diff1_eq [symmetric] del: zle_diff1_eq)
  assume i: "1 \<le> i" "i < length v"
  then obtain k where k: "i = Suc k" by (cases i) auto
  have "k < length xs" using i v k by simp
  from spec_pass_nth_bounds [OF this, of 1 0]
  show "0 \<le> fst (spec_extract v) ! i \<and> fst (spec_extract v) ! i < 2 * int i + 1"
    unfolding v spec_extract_Cons k by (simp add: algebra_simps)
qed


subsection \<open>No value leaves the range of its C++ type\<close>

lemma spec_pass_carry_le:
  assumes "\<forall>k<length xs. xs ! k \<le> 2 * (i + int k)" and "\<forall>x\<in>set xs. 0 \<le> x"
    and "0 \<le> c" and "c \<le> 20 * (i + int (length xs))" and "1 \<le> i"
  shows "snd (spec_pass i xs c) \<le> 20 * i"
  using assms
proof (induction xs arbitrary: i)
  case Nil
  then show ?case by simp
next
  case (Cons x xs)
  define c' where "c' = snd (spec_pass (i + 1) xs c)"
  have b: "\<forall>k<length xs. xs ! k \<le> 2 * (i + 1 + int k)"
  proof (intro allI impI)
    fix k assume "k < length xs"
    then show "xs ! k \<le> 2 * (i + 1 + int k)"
      using Cons.prems(1) [rule_format, of "Suc k"] by simp
  qed
  have "c' \<le> 20 * (i + 1)"
    unfolding c'_def using Cons.prems by (intro Cons.IH b) simp_all
  moreover have "x \<le> 2 * i" using Cons.prems(1) [rule_format, of 0] by simp
  ultimately have "(x * 10 + c') div (2 * i + 1) \<le> 20"
    using Cons.prems(5) by (intro div_le_of_less_mult) (simp_all add: algebra_simps)
  then have "(x * 10 + c') div (2 * i + 1) * i \<le> 20 * i"
    using Cons.prems(5) by (simp add: mult_right_mono)
  then show ?case by (simp add: spec_pass_Cons c'_def)
qed

lemma reachable_entries_le:
  assumes "0 < n" and "1 \<le> i" and "int i < state_len n"
  shows "a (spec_iter k (start_state n)) ! i \<le> 2 * int i"
proof (cases k)
  case 0
  then show ?thesis using assms by (simp add: start_state_def init_state_def)
next
  case (Suc j)
  let ?v = "a (spec_iter j (start_state n))"
  have "wf_state (state_len n) (spec_iter j (start_state n))"
    using wf_start_state [OF assms(1)] by (rule wf_spec_iter)
  then have v: "?v \<noteq> []" "i < length ?v" using assms(3) by (auto simp: wf_state_def)
  from spec_extract_bounds(2) [OF v(1) assms(2) v(2)] show ?thesis
    unfolding Suc by (simp add: spec_body_a)
qed

lemma reachable_carry_le:
  assumes "0 < n" and "0 \<le> m" and "m < state_len n"
    and "inner_from (state_len n - 1) m (a (spec_iter k (start_state n))) 0 = Some (w, c)"
  shows "0 \<le> c \<and> c \<le> 20 * (m + 1)"
proof -
  let ?v = "a (spec_iter k (start_state n))"
  have wf: "wf_state (state_len n) (spec_iter k (start_state n))"
    using wf_start_state [OF assms(1)] by (rule wf_spec_iter)
  then have len: "int (length ?v) = state_len n" and nn: "\<forall>y\<in>set ?v. 0 \<le> y"
    by (simp_all add: wf_state_def)
  define pre where "pre = take (nat m + 1) ?v"
  define mid where "mid = drop (nat m + 1) ?v"
  have v: "?v = pre @ mid @ []" by (simp add: pre_def mid_def)
  have "nat m + 1 \<le> length ?v" using assms(2,3) len by linarith
  then have lpn: "length pre = nat m + 1" by (simp add: pre_def)
  then have lp: "int (length pre) = m + 1" using assms(2) by simp
  have pne: "pre \<noteq> []" using lpn by auto
  have mid: "\<forall>x\<in>set mid. 0 \<le> x" using nn by (auto simp: mid_def dest: in_set_dropD)
  have idx: "state_len n - 1 = int (length pre + length mid) - 1" "m = int (length pre) - 1"
    using lp len by (simp_all add: pre_def mid_def)
  have "inner_from (int (length pre + length mid) - 1) (int (length pre) - 1) (pre @ mid @ []) 0 =
          Some (pre @ fst (spec_pass (int (length pre)) mid 0) @ [], snd (spec_pass (int (length pre)) mid 0))"
    using mid pne by (intro inner_from_spec_pass) simp_all
  then have c: "c = snd (spec_pass (m + 1) mid 0)"
    using assms(4) unfolding v [symmetric] idx [symmetric] lp by simp
  have mb: "\<forall>k<length mid. mid ! k \<le> 2 * (m + 1 + int k)"
  proof (intro allI impI)
    fix j assume j: "j < length mid"
    then have "nat m + 1 + j < length ?v" by (simp add: mid_def)
    then have "int (nat m + 1 + j) < state_len n" using len by linarith
    from reachable_entries_le [OF assms(1) _ this, of k]
    show "mid ! j \<le> 2 * (m + 1 + int j)" using j assms(2) by (simp add: mid_def add.commute add.left_commute)
  qed
  have "snd (spec_pass (m + 1) mid 0) \<le> 20 * (m + 1)"
    using mb mid assms(2) by (intro spec_pass_carry_le) simp_all
  moreover have "0 \<le> snd (spec_pass (m + 1) mid 0)"
    using mid assms(2) by (intro spec_pass_nonneg) simp_all
  ultimately show ?thesis unfolding c by simp
qed

subsection \<open>Evaluation on concrete inputs\<close>

text \<open>
  For \<open>n > 0\<close> the function is the formatting of what the loop over
  \<open>spec_extract\<close> commits; concrete inputs are evaluated through this equation.
\<close>

lemma generate_spec:
  assumes "0 < n"
  shows "calculatePiDigitsString n =
           format_digits n (calculated_digits (spec_run n 0 (spec_body 0 (start_state n))))"
  using assms by (simp add: calculatePiDigitsString_def run_loop_spec)

lemma generate_2: "calculatePiDigitsString 2 = Some ''3.13''"
proof -
  have "(0::int) < 2" by simp
  show ?thesis unfolding generate_spec [OF \<open>0 < 2\<close>] by code_simp
qed

lemma generate_3: "calculatePiDigitsString 3 = Some ''3.141''"
proof -
  have "(0::int) < 3" by simp
  show ?thesis unfolding generate_spec [OF \<open>0 < 3\<close>] by code_simp
qed

lemma generate_1: "calculatePiDigitsString 1 = Some ''3.1''"
proof -
  have "(0::int) < 1" by simp
  show ?thesis unfolding generate_spec [OF \<open>0 < 1\<close>] by code_simp
qed

lemma generate_10: "calculatePiDigitsString 10 = Some ''3.1415926535''"
proof -
  have "(0::int) < 10" by simp
  show ?thesis unfolding generate_spec [OF \<open>0 < 10\<close>] by code_simp
qed

lemma generate_50:
  "calculatePiDigitsString 50 = Some ''3.14159265358979323846264338327950288419716939937510''"
proof -
  have "(0::int) < 50" by simp
  show ?thesis unfolding generate_spec [OF \<open>0 < 50\<close>] by code_simp
qed


section \<open>The claims\<close>



text \<open>
  Claim C2. The function returns \<open>"3.1"\<close> for 1 and \<open>"3.1415926535"\<close> for 10, and
  the digits it returns for 50 are the first 50 decimal digits of pi,
  \<open>14159265358979323846264338327950288419716939937510\<close>.
\<close>

theorem C2_reference_values:
  "calculatePiDigitsString 1 = Some ''3.1'' \<and>
   calculatePiDigitsString 10 = Some ''3.1415926535'' \<and>
   map_option (drop 2) (calculatePiDigitsString 50) =
     Some ''14159265358979323846264338327950288419716939937510''"
  by (simp add: generate_1 generate_10 generate_50)

text \<open>
  Claim C3 states that the digits returned for \<open>n1\<close> are a prefix of the digits
  returned for \<open>n2\<close> whenever \<open>n1 < n2\<close>. The function evaluated at 2 and 3: it
  returns \<open>"3.13"\<close> and \<open>"3.141"\<close>, and \<open>13\<close> is not a prefix of \<open>141\<close>.
\<close>

theorem C3_prefix_violated:
  "calculatePiDigitsString 2 = Some ''3.13'' \<and>
   calculatePiDigitsString 3 = Some ''3.141'' \<and>
   \<not> prefix (drop 2 ''3.13'') (drop 2 ''3.141'')"
  by (simp add: generate_2 generate_3)

text \<open>
  Claim C4. In an outer iteration after the first (\<open>j > 0\<close>) the buffering step
  on the candidate \<open>q\<close> commits \<open>predigit\<close> and then \<open>nines\<close> entries 9, sets
  \<open>predigit = q\<close> and \<open>nines = 0\<close> when \<open>q < 9\<close>; commits \<open>predigit + 1\<close> and then
  \<open>nines\<close> entries 0, sets \<open>predigit = 0\<close> and \<open>nines = 0\<close> when \<open>q = 10\<close>; and
  commits nothing and increments \<open>nines\<close> when \<open>q = 9\<close>. In the first iteration
  (\<open>j = 0\<close>) a candidate up to 9 is stored in \<open>predigit\<close> and nothing else
  changes; the candidate that the first iteration of the program computes is
  such a value for every \<open>n > 0\<close>, so the first iteration commits nothing and
  sets \<open>predigit\<close> to it.
\<close>

theorem C4_buffering:
  "(0 < j \<and> q < 9 \<longrightarrow>
      buffer_step j q s =
        s\<lparr>calculated_digits := calculated_digits s @ predigit s # replicate (nat (nines s)) 9,
          predigit := q, nines := 0\<rparr>) \<and>
   (0 < j \<and> q = 10 \<longrightarrow>
      buffer_step j q s =
        s\<lparr>calculated_digits := calculated_digits s @ (predigit s + 1) # replicate (nat (nines s)) 0,
          predigit := 0, nines := 0\<rparr>) \<and>
   (0 < j \<and> q = 9 \<longrightarrow> buffer_step j q s = s\<lparr>nines := nines s + 1\<rparr>) \<and>
   (q \<le> 9 \<longrightarrow> buffer_step 0 q s = s\<lparr>predigit := q\<rparr>) \<and>
   (0 < n \<longrightarrow>
      (\<exists>v q0. extract_digit (state_len n) (a (start_state n)) = Some (v, q0) \<and> q0 \<le> 9 \<and>
         outer_body (state_len n) 0 (start_state n) = Some ((start_state n)\<lparr>a := v, predigit := q0\<rparr>)))"
proof (intro conjI impI)
  assume n: "0 < n"
  let ?s = "start_state n"
  have wf: "wf_state (state_len n) ?s" using n by (rule wf_start_state)
  then have "a ?s \<noteq> []" "\<forall>y\<in>set (a ?s). 0 \<le> y" "state_len n = int (length (a ?s))"
    by (auto simp: wf_state_def)
  then have e: "extract_digit (state_len n) (a ?s) = Some (spec_extract (a ?s))"
    using extract_digit_spec [of "a ?s"] by simp
  have "4 \<le> nat (state_len n)" using state_len_ge [OF n] by simp
  from first_digit [OF this] have q: "snd (spec_extract (a ?s)) = 3"
    by (simp add: start_state_def init_state_def)
  have "outer_body (state_len n) 0 ?s =
          Some (?s\<lparr>a := fst (spec_extract (a ?s)), predigit := 3\<rparr>)"
    unfolding outer_body_def e
    by (simp add: case_prod_beta q buffer_step_def commit_def next_predigit_def next_nines_def)
  then show "\<exists>v q0. extract_digit (state_len n) (a ?s) = Some (v, q0) \<and> q0 \<le> 9 \<and>
         outer_body (state_len n) 0 ?s = Some (?s\<lparr>a := v, predigit := q0\<rparr>)"
    using e q by (intro exI [of _ "fst (spec_extract (a ?s))"] exI [of _ 3]) (simp add: prod_eq_iff)
qed (simp_all add: buffer_step_def commit_def next_predigit_def next_nines_def push_run_def)

theorem C4_buffering_witness:
  "buffer_step 1 5 \<lparr>a = [2], calculated_digits = [3], nines = 2, predigit = 1\<rparr> =
     \<lparr>a = [2], calculated_digits = [3, 1, 9, 9], nines = 0, predigit = 5\<rparr> \<and>
   buffer_step 1 10 \<lparr>a = [2], calculated_digits = [3], nines = 2, predigit = 1\<rparr> =
     \<lparr>a = [2], calculated_digits = [3, 2, 0, 0], nines = 0, predigit = 0\<rparr> \<and>
   buffer_step 1 9 \<lparr>a = [2], calculated_digits = [3], nines = 2, predigit = 1\<rparr> =
     \<lparr>a = [2], calculated_digits = [3], nines = 3, predigit = 1\<rparr> \<and>
   buffer_step 0 3 \<lparr>a = [2], calculated_digits = [], nines = 0, predigit = 0\<rparr> =
     \<lparr>a = [2], calculated_digits = [], nines = 0, predigit = 3\<rparr> \<and>
   (0::int) < 1 \<and>
   (\<exists>v q0. extract_digit (state_len 1) (a (start_state 1)) = Some (v, q0) \<and> q0 \<le> 9 \<and>
      outer_body (state_len 1) 0 (start_state 1) = Some ((start_state 1)\<lparr>a := v, predigit := q0\<rparr>))"
  using
    C4_buffering [where j = 1 and q = 5 and n = 1
      and s = "\<lparr>a = [2], calculated_digits = [3], nines = 2, predigit = 1\<rparr>"]
    C4_buffering [where j = 1 and q = 10 and n = 1
      and s = "\<lparr>a = [2], calculated_digits = [3], nines = 2, predigit = 1\<rparr>"]
    C4_buffering [where j = 1 and q = 9 and n = 1
      and s = "\<lparr>a = [2], calculated_digits = [3], nines = 2, predigit = 1\<rparr>"]
    C4_buffering [where j = 1 and q = 3 and n = 1
      and s = "\<lparr>a = [2], calculated_digits = [], nines = 0, predigit = 0\<rparr>"]
  by (simp add: numeral_2_eq_2)



text \<open>
  Claim C6. For every \<open>n \<le> 0\<close> the function returns exactly \<open>"3."\<close>, without
  any failure; a negative \<open>n\<close> behaves as \<open>n = 0\<close>.
\<close>

theorem C6_nonpositive_input: "n \<le> 0 \<Longrightarrow> calculatePiDigitsString n = Some ''3.''"
  by (simp add: calculatePiDigitsString_def)

theorem C6_nonpositive_input_witness:
  "(-7::int) \<le> 0 \<and> calculatePiDigitsString (-7) = Some ''3.'' \<and>
   (0::int) \<le> 0 \<and> calculatePiDigitsString 0 = Some ''3.''"
  using C6_nonpositive_input [of "-7"] C6_nonpositive_input [of 0] by simp








end
